theory Spec2Isabelle
  imports Main "HOL-Library.Word" "HOL-Library.Signed_Division" "HOL-Library.Multiset"
begin

section \<open>The task model (worker/internal/task/task.go)\<close>

text \<open>
  Go's \<open>int\<close> is taken at its width on the 64-bit platforms the demo is built for:
  a 64-bit two's complement word. Addition and multiplication wrap around, as they do
  in Go. The remainder operator \<open>%\<close> truncates towards zero; it is written out over the
  signed reading of the word.
\<close>

type_synonym go_int = "64 word"

definition go_rem :: "go_int \<Rightarrow> go_int \<Rightarrow> go_int" where
  "go_rem a b = word_of_int (sint a smod sint b)"

text \<open>\<open>type OperationType int\<close> with the four constants numbered by \<open>iota\<close>.\<close>

type_synonym OperationType = go_int

definition OperationSum :: OperationType where
  "OperationSum = 0"

definition OperationMultiply :: OperationType where
  "OperationMultiply = 1"

definition OperationSquare :: OperationType where
  "OperationSquare = 2"

definition OperationFilter :: OperationType where
  "OperationFilter = 3"

record Task =
  ID :: go_int
  Data :: "go_int list"
  Operation :: OperationType

text \<open>
  \<open>Value interface{}\<close> holds an \<open>int\<close>, an \<open>[]int\<close> or \<open>nil\<close>, the three things
  \<open>Process\<close> stores in it.
\<close>

datatype Value = IntValue go_int | SliceValue "go_int list" | NilValue

record Result =
  TaskID :: go_int
  Value :: Value
  Info :: string

text \<open>
  \<open>fmt.Sprintf("%d", n)\<close> for a length, which is never negative: the decimal digits,
  most significant first.
\<close>

definition digit_char :: "nat \<Rightarrow> char" where
  "digit_char d = ''0123456789'' ! d"

function fmt_d :: "nat \<Rightarrow> string" where
  "fmt_d n = (if n < 10 then [digit_char n] else fmt_d (n div 10) @ [digit_char (n mod 10)])"
  by pat_completeness auto
termination
  by (relation "measure (\<lambda>n. n)") auto

declare fmt_d.simps [simp del]

text \<open>The four \<open>for ... range t.Data\<close> loops, each with its accumulator.\<close>

fun sum_loop :: "go_int list \<Rightarrow> go_int \<Rightarrow> go_int" where
  "sum_loop [] acc = acc"
| "sum_loop (v # vs) acc = sum_loop vs (acc + v)"

fun product_loop :: "go_int list \<Rightarrow> go_int \<Rightarrow> go_int" where
  "product_loop [] product = product"
| "product_loop (v # vs) product = product_loop vs (product * v)"

text \<open>
  \<open>squares[i] = v * v\<close> writes into a slice made with the length of the data, so the
  index is always in range.
\<close>

fun square_loop :: "nat \<Rightarrow> go_int list \<Rightarrow> go_int list \<Rightarrow> go_int list" where
  "square_loop i [] squares = squares"
| "square_loop i (v # vs) squares = square_loop (Suc i) vs (squares[i := v * v])"

fun filter_loop :: "go_int list \<Rightarrow> go_int list \<Rightarrow> go_int list" where
  "filter_loop [] filtered = filtered"
| "filter_loop (v # vs) filtered =
     filter_loop vs (if go_rem v 2 = 0 then filtered @ [v] else filtered)"

text \<open>
  \<open>Process\<close>: the \<open>switch\<close> computes \<open>value\<close> and \<open>info\<close>, then the result is built
  with the task's ID. It has no error return and no panic: every branch falls through
  to the \<open>return\<close>.
\<close>

definition Process :: "Task \<Rightarrow> Result" where
  "Process t =
     (let (value, info) =
        (if Operation t = OperationSum then
           (let acc = sum_loop (Data t) 0
            in (IntValue acc, ''Sum of '' @ fmt_d (length (Data t)) @ '' numbers''))
         else if Operation t = OperationMultiply then
           (let product = product_loop (Data t) 1
            in (IntValue product, ''Product of '' @ fmt_d (length (Data t)) @ '' numbers''))
         else if Operation t = OperationSquare then
           (let squares = square_loop 0 (Data t) (replicate (length (Data t)) 0)
            in (SliceValue squares, ''Squared '' @ fmt_d (length (Data t)) @ '' numbers''))
         else if Operation t = OperationFilter then
           (let filtered = filter_loop (Data t) []
            in (SliceValue filtered,
                ''Filtered '' @ fmt_d (length filtered) @ '' even numbers from ''
                  @ fmt_d (length (Data t))))
         else (NilValue, ''Unknown operation''))
      in \<lparr>TaskID = ID t, Value = value, Info = info\<rparr>)"

section \<open>The optimized worker pool (package worker, type OptimizedWorker)\<close>

text \<open>
  The pool is concurrent, so it is modelled as a transition system. A state holds the
  fields of the struct that the goroutines share, the table of the goroutines launched
  so far with the place each one is at, and the places of the two kinds of caller: the
  one inside \<open>ProcessTasks\<close> and the one inside \<open>Stop\<close>. A step is one
  synchronisation of one goroutine or caller: one \<open>select\<close> that takes one of its
  cases, the body of the worker loop after a receive, or one statement of \<open>Stop\<close>.
  A run is a list of steps, a schedule, applied in order; every property is proved
  for all schedules.

  The outcome of a step is a new state, \<open>Blocked\<close> when the step cannot be taken in
  this state (the schedule is then not a run of the program), or a panic of the Go
  runtime. The mutex only guards the append to \<open>results\<close> and reads of lengths; it is
  modelled by these being single steps. Metrics, log entries, the string-builder pool
  and \<open>resultBuffer\<close> change nothing the goroutines synchronise on and are left out.
\<close>

datatype panic =
    SendOnClosedChannel
  | CloseOfClosedChannel
  | NegativeWaitGroupCounter
  | MakeSizeOutOfRange

datatype 'a outcome = Ok 'a | Blocked | Panic panic

text \<open>
  The four goroutine bodies: \<open>worker(id)\<close>, \<open>helperTask(taskID)\<close>, \<open>monitor()\<close> and
  \<open>collectMetrics()\<close>. Each is a \<open>for { select { ... } }\<close> loop, so a goroutine is
  either at its \<open>select\<close>, or (a worker only) past the receive and holding the task it
  received, or it has returned.
\<close>

datatype body = WorkerG nat | HelperG go_int | MonitorG | MetricsG

datatype place = AtSelect | Holding Task | Exited

type_synonym goroutine = "body \<times> place"

text \<open>The three statements of \<open>Stop\<close>, as the places of its caller between them.\<close>

datatype stop_place = NotInStop | AfterCancel | AfterClose | Returned

record OptimizedWorker =
  taskQueue :: "Task list"
  taskQueueCap :: nat
  taskQueueClosed :: bool
  results :: "Result list"
  wg :: int
  ctxDone :: bool
  goroutines :: "goroutine list"
  pending :: "Task list"
  aborted :: bool
  stopAt :: stop_place

text \<open>
  \<open>taskQueue\<close> is the buffer of the channel, oldest first, with its capacity and its
  closed flag; \<open>wg\<close> is the counter of the wait-group; \<open>ctxDone\<close> says that the
  context's \<open>Done\<close> channel is closed. \<open>pending\<close> is the part of the argument of
  \<open>ProcessTasks\<close> that its \<open>range\<close> loop has not sent yet and \<open>aborted\<close> says that
  the loop was left through the \<open>ctx.Done()\<close> case; \<open>ProcessTasks\<close> has returned when
  \<open>pending\<close> is empty or \<open>aborted\<close> is set.

  \<open>NewOptimizedWorker\<close>: \<open>make\<close> panics on a negative size.
\<close>

definition new_pool :: "nat \<Rightarrow> OptimizedWorker" where
  "new_pool capacity =
     \<lparr>taskQueue = [], taskQueueCap = capacity, taskQueueClosed = False, results = [],
      wg = 0, ctxDone = False, goroutines = [], pending = [], aborted = False,
      stopAt = NotInStop\<rparr>"

definition NewOptimizedWorker :: "go_int \<Rightarrow> OptimizedWorker outcome" where
  "NewOptimizedWorker expectedTasks =
     (if sint expectedTasks < 0 then Panic MakeSizeOutOfRange
      else Ok (new_pool (nat (sint expectedTasks))))"

text \<open>\<open>w.wg.Add(1); go f()\<close>: the goroutine is registered, then launched at its \<open>select\<close>.\<close>

definition spawn :: "body \<Rightarrow> OptimizedWorker \<Rightarrow> OptimizedWorker" where
  "spawn b w = w\<lparr>wg := wg w + 1, goroutines := goroutines w @ [(b, AtSelect)]\<rparr>"

text \<open>
  \<open>Start\<close>: the loop \<open>for i := 0; i < numWorkers; i++\<close> launches the workers (none for
  a negative count), then the monitor and the metrics sampler are launched.
\<close>

fun spawn_workers :: "nat list \<Rightarrow> OptimizedWorker \<Rightarrow> OptimizedWorker" where
  "spawn_workers [] w = w"
| "spawn_workers (i # ids) w = spawn_workers ids (spawn (WorkerG i) w)"

definition Start :: "go_int \<Rightarrow> OptimizedWorker \<Rightarrow> OptimizedWorker" where
  "Start numWorkers w =
     spawn MetricsG (spawn MonitorG (spawn_workers [0..<nat (sint numWorkers)] w))"

text \<open>
  The deferred \<open>w.wg.Done()\<close> of a goroutine that returns. \<open>Done\<close> panics when the
  counter would become negative.
\<close>

definition wg_Done :: "OptimizedWorker \<Rightarrow> OptimizedWorker outcome" where
  "wg_Done w =
     (if wg w - 1 < 0 then Panic NegativeWaitGroupCounter else Ok (w\<lparr>wg := wg w - 1\<rparr>))"

definition set_place :: "nat \<Rightarrow> place \<Rightarrow> OptimizedWorker \<Rightarrow> OptimizedWorker" where
  "set_place i p w = w\<lparr>goroutines := (goroutines w)[i := (fst (goroutines w ! i), p)]\<rparr>"

definition exit_goroutine :: "nat \<Rightarrow> OptimizedWorker \<Rightarrow> OptimizedWorker outcome" where
  "exit_goroutine i w = wg_Done (set_place i Exited w)"

text \<open>
  A \<open>select\<close> in this program has two cases: \<open><-w.ctx.Done()\<close>, and a communication
  (a receive from the queue, a receive from a ticker, or a send to the queue). When
  both can proceed Go takes either; the schedule says which.
\<close>

datatype branch = CtxDone | Comm

text \<open>
  The \<open>select\<close> of \<open>worker\<close>. The receive takes the oldest buffered task; on a closed
  and empty queue it yields \<open>ok = false\<close> and the worker returns; on an open and empty
  queue it cannot proceed.
\<close>

definition worker_select :: "nat \<Rightarrow> branch \<Rightarrow> OptimizedWorker \<Rightarrow> OptimizedWorker outcome" where
  "worker_select i b w =
     (case b of
        CtxDone \<Rightarrow> if ctxDone w then exit_goroutine i w else Blocked
      | Comm \<Rightarrow>
          (case taskQueue w of
             t # q \<Rightarrow> Ok (set_place i (Holding t) (w\<lparr>taskQueue := q\<rparr>))
           | [] \<Rightarrow> if taskQueueClosed w then exit_goroutine i w else Blocked))"

text \<open>
  The rest of the worker's loop body: \<open>t.Process()\<close>, the append to \<open>results\<close> under
  the mutex, and \<open>w.wg.Add(1); go w.helperTask(t.ID)\<close>; then back to the \<open>select\<close>.
\<close>

definition worker_body :: "nat \<Rightarrow> Task \<Rightarrow> OptimizedWorker \<Rightarrow> OptimizedWorker" where
  "worker_body i t w =
     (let result = Process t
      in spawn (HelperG (ID t)) (set_place i AtSelect (w\<lparr>results := results w @ [result]\<rparr>)))"

text \<open>
  The \<open>select\<close> of \<open>helperTask\<close>, \<open>monitor\<close> and \<open>collectMetrics\<close>: return on
  cancellation, or take a tick. What a tick does is local to the goroutine (or only
  reads lengths), so it leaves the state as it is. Time is not modelled: a tick may
  be taken at any step.
\<close>

definition ticker_select :: "nat \<Rightarrow> branch \<Rightarrow> OptimizedWorker \<Rightarrow> OptimizedWorker outcome" where
  "ticker_select i b w =
     (case b of
        CtxDone \<Rightarrow> if ctxDone w then exit_goroutine i w else Blocked
      | Comm \<Rightarrow> Ok w)"

text \<open>
  \<open>ProcessTasks\<close>: \<open>ProcessTasks_begin\<close> enters the function with its argument, and
  \<open>ProcessTasks_select\<close> is the \<open>select\<close> of one round of its loop. A send on a
  closed channel can proceed, and proceeds by a run-time panic; otherwise the send
  needs room in the buffer. (A send that meets a waiting receiver is \<open>handoff\<close> below.)
\<close>

definition ProcessTasks_begin :: "Task list \<Rightarrow> OptimizedWorker \<Rightarrow> OptimizedWorker" where
  "ProcessTasks_begin tasks w = w\<lparr>pending := tasks, aborted := False\<rparr>"

definition ProcessTasks_returned :: "OptimizedWorker \<Rightarrow> bool" where
  "ProcessTasks_returned w \<longleftrightarrow> pending w = [] \<or> aborted w"

definition ProcessTasks_select :: "branch \<Rightarrow> OptimizedWorker \<Rightarrow> OptimizedWorker outcome" where
  "ProcessTasks_select b w =
     (case pending w of
        [] \<Rightarrow> Blocked
      | t # ts \<Rightarrow>
          if aborted w then Blocked
          else (case b of
                  CtxDone \<Rightarrow> if ctxDone w then Ok (w\<lparr>aborted := True\<rparr>) else Blocked
                | Comm \<Rightarrow>
                    if taskQueueClosed w then Panic SendOnClosedChannel
                    else if length (taskQueue w) < taskQueueCap w
                    then Ok (w\<lparr>taskQueue := taskQueue w @ [t], pending := ts\<rparr>)
                    else Blocked))"

text \<open>
  The send of \<open>ProcessTasks\<close> meeting worker \<open>i\<close> waiting at its receive on an empty
  queue: the task goes to the worker directly. This is the only way a send proceeds
  on an unbuffered queue (\<open>expectedTasks = 0\<close>).
\<close>

definition handoff :: "nat \<Rightarrow> OptimizedWorker \<Rightarrow> OptimizedWorker outcome" where
  "handoff i w =
     (case pending w of
        [] \<Rightarrow> Blocked
      | t # ts \<Rightarrow>
          if aborted w then Blocked
          else if taskQueueClosed w then Panic SendOnClosedChannel
          else if taskQueue w = [] \<and> i < length (goroutines w) then
            (case goroutines w ! i of
               (WorkerG k, AtSelect) \<Rightarrow> Ok (set_place i (Holding t) (w\<lparr>pending := ts\<rparr>))
             | _ \<Rightarrow> Blocked)
          else Blocked)"

text \<open>\<open>GetResults\<close> returns a copy of \<open>results\<close>.\<close>

definition GetResults :: "OptimizedWorker \<Rightarrow> Result list" where
  "GetResults w = results w"

text \<open>
  \<open>Stop\<close> is three statements. \<open>w.cancel()\<close> closes the context's \<open>Done\<close> channel and
  may be repeated; \<open>close(w.taskQueue)\<close> panics on a channel that is already closed;
  \<open>w.wg.Wait()\<close> returns when the counter is zero and cannot proceed before.
\<close>

definition cancel :: "OptimizedWorker \<Rightarrow> OptimizedWorker" where
  "cancel w = w\<lparr>ctxDone := True\<rparr>"

definition close_taskQueue :: "OptimizedWorker \<Rightarrow> OptimizedWorker outcome" where
  "close_taskQueue w =
     (if taskQueueClosed w then Panic CloseOfClosedChannel
      else Ok (w\<lparr>taskQueueClosed := True\<rparr>))"

definition wg_Wait :: "OptimizedWorker \<Rightarrow> OptimizedWorker outcome" where
  "wg_Wait w = (if wg w = 0 then Ok w else Blocked)"

definition Stop_cancel :: "OptimizedWorker \<Rightarrow> OptimizedWorker outcome" where
  "Stop_cancel w =
     (if stopAt w = NotInStop \<or> stopAt w = Returned
      then Ok ((cancel w)\<lparr>stopAt := AfterCancel\<rparr>) else Blocked)"

definition Stop_close :: "OptimizedWorker \<Rightarrow> OptimizedWorker outcome" where
  "Stop_close w =
     (if stopAt w = AfterCancel then
        (case close_taskQueue w of
           Ok w' \<Rightarrow> Ok (w'\<lparr>stopAt := AfterClose\<rparr>)
         | Blocked \<Rightarrow> Blocked
         | Panic p \<Rightarrow> Panic p)
      else Blocked)"

definition Stop_wait :: "OptimizedWorker \<Rightarrow> OptimizedWorker outcome" where
  "Stop_wait w =
     (if stopAt w = AfterClose then
        (case wg_Wait w of
           Ok w' \<Rightarrow> Ok (w'\<lparr>stopAt := Returned\<rparr>)
         | Blocked \<Rightarrow> Blocked
         | Panic p \<Rightarrow> Panic p)
      else Blocked)"

text \<open>
  The steps of a schedule: goroutine \<open>i\<close> takes a case of its \<open>select\<close>; worker \<open>i\<close>
  runs its loop body; the caller of \<open>ProcessTasks\<close> takes a case of its \<open>select\<close> or
  hands a task to worker \<open>i\<close>; the caller of \<open>Stop\<close> runs its next statement.
\<close>

datatype event =
    Select nat branch
  | Body nat
  | Send branch
  | Handoff nat
  | StopCancel
  | StopClose
  | StopWait

definition goroutine_select :: "nat \<Rightarrow> branch \<Rightarrow> OptimizedWorker \<Rightarrow> OptimizedWorker outcome" where
  "goroutine_select i b w =
     (if i < length (goroutines w) then
        (case goroutines w ! i of
           (WorkerG k, AtSelect) \<Rightarrow> worker_select i b w
         | (HelperG k, AtSelect) \<Rightarrow> ticker_select i b w
         | (MonitorG, AtSelect) \<Rightarrow> ticker_select i b w
         | (MetricsG, AtSelect) \<Rightarrow> ticker_select i b w
         | _ \<Rightarrow> Blocked)
      else Blocked)"

definition goroutine_body :: "nat \<Rightarrow> OptimizedWorker \<Rightarrow> OptimizedWorker outcome" where
  "goroutine_body i w =
     (if i < length (goroutines w) then
        (case goroutines w ! i of
           (WorkerG k, Holding t) \<Rightarrow> Ok (worker_body i t w)
         | _ \<Rightarrow> Blocked)
      else Blocked)"

fun step :: "event \<Rightarrow> OptimizedWorker \<Rightarrow> OptimizedWorker outcome" where
  "step (Select i b) w = goroutine_select i b w"
| "step (Body i) w = goroutine_body i w"
| "step (Send b) w = ProcessTasks_select b w"
| "step (Handoff i) w = handoff i w"
| "step StopCancel w = Stop_cancel w"
| "step StopClose w = Stop_close w"
| "step StopWait w = Stop_wait w"

fun run :: "event list \<Rightarrow> OptimizedWorker \<Rightarrow> OptimizedWorker outcome" where
  "run [] w = Ok w"
| "run (e # es) w =
     (case step e w of
        Ok w' \<Rightarrow> run es w'
      | Blocked \<Rightarrow> Blocked
      | Panic p \<Rightarrow> Panic p)"

text \<open>
  Measures of a state used in the statements below: the number of goroutines that
  have not returned, and the tasks held by workers between receive and append.
\<close>

fun live :: "goroutine list \<Rightarrow> nat" where
  "live [] = 0"
| "live ((b, p) # gs) = (if p = Exited then live gs else Suc (live gs))"

fun held :: "goroutine list \<Rightarrow> Task list" where
  "held [] = []"
| "held ((b, Holding t) # gs) = t # held gs"
| "held ((b, p) # gs) = held gs"

text \<open>
  The invariants of the runs. The wait-group counts exactly the goroutines that have
  not returned, and the flags follow the place of the caller of \<open>Stop\<close>; every task
  given to \<open>ProcessTasks\<close> is in exactly one place: processed, in the queue, held by
  a worker, or not sent; the goroutine table lists the workers, the monitor, the
  sampler and one helper for each result.
\<close>

definition stop_inv :: "OptimizedWorker \<Rightarrow> bool" where
  "stop_inv w \<longleftrightarrow>
     wg w = int (live (goroutines w))
     \<and> (stopAt w = Returned \<longrightarrow> wg w = 0)
     \<and> (stopAt w \<noteq> NotInStop \<longrightarrow> ctxDone w)
     \<and> (stopAt w = AfterClose \<or> stopAt w = Returned \<longrightarrow> taskQueueClosed w)
     \<and> (stopAt w = NotInStop \<longrightarrow> \<not> taskQueueClosed w)"

definition tasks_inv :: "Task list \<Rightarrow> OptimizedWorker \<Rightarrow> bool" where
  "tasks_inv tasks w \<longleftrightarrow>
     mset (results w) + mset (map Process (taskQueue w))
       + mset (map Process (held (goroutines w))) + mset (map Process (pending w))
     = mset (map Process tasks)"

definition table_inv :: "nat \<Rightarrow> OptimizedWorker \<Rightarrow> bool" where
  "table_inv k w \<longleftrightarrow>
     map fst (goroutines w)
     = map WorkerG [0..<k] @ [MonitorG, MetricsG] @ map (\<lambda>r. HelperG (TaskID r)) (results w)"


section \<open>Properties of Process\<close>

lemmas Operation_defs =
  OperationSum_def OperationMultiply_def OperationSquare_def OperationFilter_def

lemma smod_2_eq_0_iff: "(k::int) smod 2 = 0 \<longleftrightarrow> even k"
  by (auto simp: signed_modulo_int_def sgn_if elim: evenE oddE)

lemma smod_2_range: "(k::int) smod 2 \<in> {-1, 0, 1}"
  by (auto simp: signed_modulo_int_def sgn_if)

lemma go_rem_2_iff: "go_rem v 2 = 0 \<longleftrightarrow> even (sint v)"
proof -
  have "sint v smod 2 \<in> {-1, 0, 1}"
    by (rule smod_2_range)
  then have "(word_of_int (sint v smod 2) :: go_int) = 0 \<longleftrightarrow> sint v smod 2 = 0"
    by auto
  then show ?thesis
    by (simp add: go_rem_def smod_2_eq_0_iff)
qed

lemma filter_loop_eq:
  "filter_loop vs filtered = filtered @ filter (\<lambda>v. even (sint v)) vs"
  by (induction vs arbitrary: filtered) (simp_all add: go_rem_2_iff)

lemma fmt_d_not_Nil: "fmt_d n \<noteq> []"
  by (subst fmt_d.simps) simp

lemma TaskID_Process: "TaskID (Process t) = ID t"
  by (simp add: Process_def Let_def split: prod.split)

text \<open>
  C6. The three worked examples of the specification: the sum of 1, 2, 3, 4 is 10, the
  squares of 1, 2, 3 are 1, 4, 9, and filtering 1 .. 6 keeps 2, 4, 6. The task ID is
  arbitrary.
\<close>

theorem Process_round_trip:
  "Value (Process \<lparr>ID = i, Data = [1, 2, 3, 4], Operation = OperationSum\<rparr>) = IntValue 10
   \<and> Value (Process \<lparr>ID = i, Data = [1, 2, 3], Operation = OperationSquare\<rparr>)
       = SliceValue [1, 4, 9]
   \<and> Value (Process \<lparr>ID = i, Data = [1, 2, 3, 4, 5, 6], Operation = OperationFilter\<rparr>)
       = SliceValue [2, 4, 6]"
  by (simp add: Process_def Operation_defs go_rem_2_iff Let_def)

text \<open>
  C7. A task whose operation tag is none of Sum, Multiply, Square, Filter takes the
  \<open>default\<close> branch: \<open>Process\<close> returns an ordinary result whose value is \<open>nil\<close> and
  whose info is the text "Unknown operation". The result carries the task's ID like
  any other; \<open>Process\<close> has no error or failure outcome.
\<close>

theorem Process_unknown_operation:
  assumes "Operation t \<noteq> OperationSum" and "Operation t \<noteq> OperationMultiply"
    and "Operation t \<noteq> OperationSquare" and "Operation t \<noteq> OperationFilter"
  shows "Process t = \<lparr>TaskID = ID t, Value = NilValue, Info = ''Unknown operation''\<rparr>"
  using assms by (simp add: Process_def)

theorem Process_unknown_operation_witness:
  "Process \<lparr>ID = 7, Data = [1, 2], Operation = 4\<rparr>
     = \<lparr>TaskID = 7, Value = NilValue, Info = ''Unknown operation''\<rparr>
   \<and> Info (Process \<lparr>ID = 7, Data = [1, 2], Operation = 4\<rparr>) \<noteq> []"
  using Process_unknown_operation [of "\<lparr>ID = 7, Data = [1, 2], Operation = 4\<rparr>"]
  by (simp add: Operation_defs)

text \<open>
  C8. For a Filter task the value is exactly the sequence of the even elements of the
  data (even as signed integers), in their original order, and it is no longer than
  the data.
\<close>

theorem Process_Filter:
  assumes "Operation t = OperationFilter"
  shows "Value (Process t) = SliceValue (filter (\<lambda>v. even (sint v)) (Data t))
         \<and> length (filter (\<lambda>v. even (sint v)) (Data t)) \<le> length (Data t)"
  using assms by (simp add: Process_def Operation_defs filter_loop_eq Let_def)

theorem Process_Filter_witness:
  "Value (Process \<lparr>ID = 1, Data = [3, -4, 0, 7, 10, -1], Operation = OperationFilter\<rparr>)
     = SliceValue [-4, 0, 10]"
  using Process_Filter
    [of "\<lparr>ID = 1, Data = [3, -4, 0, 7, 10, -1], Operation = OperationFilter\<rparr>"]
  by simp

text \<open>
  C9. Whatever the operation tag, known or unknown, the result's TaskID is the ID of
  the task processed.
\<close>

theorem Process_TaskID: "TaskID (Process t) = ID t"
  by (simp add: Process_def Let_def split: prod.split)

text \<open>
  C10. On empty data \<open>Process\<close> returns the identities: Sum gives 0, Multiply gives 1,
  Square and Filter give an empty (non-nil) sequence, and the info string is not empty.
\<close>

theorem Process_empty_data:
  assumes "Data t = []"
  shows "(Operation t = OperationSum \<longrightarrow> Value (Process t) = IntValue 0)
         \<and> (Operation t = OperationMultiply \<longrightarrow> Value (Process t) = IntValue 1)
         \<and> (Operation t = OperationSquare \<longrightarrow> Value (Process t) = SliceValue [])
         \<and> (Operation t = OperationFilter \<longrightarrow> Value (Process t) = SliceValue [])
         \<and> Info (Process t) \<noteq> []"
  using assms by (simp add: Process_def Operation_defs Let_def fmt_d_not_Nil)

theorem Process_empty_data_witness:
  "Value (Process \<lparr>ID = 5, Data = [], Operation = OperationSum\<rparr>) = IntValue 0
   \<and> Value (Process \<lparr>ID = 5, Data = [], Operation = OperationMultiply\<rparr>) = IntValue 1
   \<and> Value (Process \<lparr>ID = 5, Data = [], Operation = OperationSquare\<rparr>) = SliceValue []
   \<and> Value (Process \<lparr>ID = 5, Data = [], Operation = OperationFilter\<rparr>) = SliceValue []
   \<and> Info (Process \<lparr>ID = 5, Data = [], Operation = OperationSum\<rparr>) = ''Sum of 0 numbers''"
  using Process_empty_data [of "\<lparr>ID = 5, Data = [], Operation = OperationSum\<rparr>"]
    Process_empty_data [of "\<lparr>ID = 5, Data = [], Operation = OperationMultiply\<rparr>"]
    Process_empty_data [of "\<lparr>ID = 5, Data = [], Operation = OperationSquare\<rparr>"]
    Process_empty_data [of "\<lparr>ID = 5, Data = [], Operation = OperationFilter\<rparr>"]
  by (simp add: Operation_defs Process_def Let_def digit_char_def fmt_d.simps [of 0])

section \<open>Properties of the optimized worker pool\<close>

subsection \<open>Counting goroutines and held tasks\<close>

lemma live_append: "live (gs @ hs) = live gs + live hs"
  by (induction gs rule: live.induct) simp_all

lemma live_0_iff: "live gs = 0 \<longleftrightarrow> (\<forall>g\<in>set gs. snd g = Exited)"
  by (induction gs rule: live.induct) auto

lemma live_update_Exited:
  "i < length gs \<Longrightarrow> snd (gs ! i) \<noteq> Exited \<Longrightarrow> Suc (live (gs[i := (b, Exited)])) = live gs"
proof (induction gs arbitrary: i rule: live.induct)
  case 1
  then show ?case by simp
next
  case (2 c p gs)
  then show ?case by (cases i) auto
qed

lemma live_update_running:
  "i < length gs \<Longrightarrow> snd (gs ! i) \<noteq> Exited \<Longrightarrow> p \<noteq> Exited
   \<Longrightarrow> live (gs[i := (b, p)]) = live gs"
proof (induction gs arbitrary: i rule: live.induct)
  case 1
  then show ?case by simp
next
  case (2 c q gs)
  then show ?case by (cases i) auto
qed

lemma held_append: "held (gs @ hs) = held gs @ held hs"
  by (induction gs rule: held.induct) simp_all

lemma held_Nil: "\<forall>g\<in>set gs. snd g = Exited \<Longrightarrow> held gs = []"
  by (induction gs rule: held.induct) simp_all

lemma held_update_Holding:
  "i < length gs \<Longrightarrow> snd (gs ! i) = AtSelect
   \<Longrightarrow> mset (held (gs[i := (b, Holding t)])) = add_mset t (mset (held gs))"
proof (induction gs arbitrary: i)
  case Nil
  then show ?case by simp
next
  case (Cons g gs)
  obtain c q where g: "g = (c, q)"
    by (cases g)
  show ?case
    using Cons unfolding g by (cases i; cases q) auto
qed

lemma held_update_AtSelect:
  "i < length gs \<Longrightarrow> snd (gs ! i) = Holding t
   \<Longrightarrow> add_mset t (mset (held (gs[i := (b, AtSelect)]))) = mset (held gs)"
proof (induction gs arbitrary: i)
  case Nil
  then show ?case by simp
next
  case (Cons g gs)
  obtain c q where g: "g = (c, q)"
    by (cases g)
  show ?case
    using Cons unfolding g by (cases i; cases q) auto
qed

lemma held_update_Exited:
  "i < length gs \<Longrightarrow> snd (gs ! i) = AtSelect \<Longrightarrow> held (gs[i := (b, Exited)]) = held gs"
proof (induction gs arbitrary: i)
  case Nil
  then show ?case by simp
next
  case (Cons g gs)
  obtain c q where g: "g = (c, q)"
    by (cases g)
  show ?case
    using Cons unfolding g by (cases i; cases q) auto
qed

lemma not_Returned_if_live:
  assumes "stop_inv w" and "i < length (goroutines w)" and "snd (goroutines w ! i) \<noteq> Exited"
  shows "stopAt w \<noteq> Returned"
proof
  assume "stopAt w = Returned"
  with assms(1) have "live (goroutines w) = 0"
    by (simp add: stop_inv_def)
  then have "snd (goroutines w ! i) = Exited"
    using assms(2) by (simp add: live_0_iff)
  with assms(3) show False by simp
qed

lemma map_fst_update: "i < length gs \<Longrightarrow> map fst (gs[i := (fst (gs ! i), p)]) = map fst gs"
  by (induction gs arbitrary: i) (auto split: nat.splits)

subsection \<open>The wait-group counts the goroutines that have not returned\<close>

lemma stop_inv_exit:
  assumes "exit_goroutine i w = Ok w'" and "i < length (goroutines w)"
    and "snd (goroutines w ! i) \<noteq> Exited" and "stop_inv w"
  shows "stop_inv w'"
proof -
  have nr: "stopAt w \<noteq> Returned"
    using assms(4,2,3) by (rule not_Returned_if_live)
  have l: "Suc (live ((goroutines w)[i := (fst (goroutines w ! i), Exited)])) = live (goroutines w)"
    using assms(2,3) by (rule live_update_Exited)
  show ?thesis
    using assms(1,4) nr l
    by (auto simp: exit_goroutine_def wg_Done_def set_place_def stop_inv_def split: if_splits)
qed

lemma stop_inv_set_place:
  assumes "i < length (goroutines w)" and "snd (goroutines w ! i) \<noteq> Exited" and "p \<noteq> Exited"
    and "stop_inv w"
  shows "stop_inv (set_place i p w)"
  using assms by (auto simp: set_place_def stop_inv_def live_update_running)

lemma stop_inv_spawn:
  assumes "stop_inv w" and "stopAt w \<noteq> Returned"
  shows "stop_inv (spawn b w)"
  using assms by (auto simp: spawn_def stop_inv_def live_append)

lemma stop_inv_fields:
  assumes "stop_inv w" and "wg w' = wg w" and "goroutines w' = goroutines w"
    and "stopAt w' = stopAt w" and "ctxDone w' = ctxDone w"
    and "taskQueueClosed w' = taskQueueClosed w"
  shows "stop_inv w'"
  using assms by (auto simp: stop_inv_def)

lemma stop_inv_worker_select:
  assumes "worker_select i b w = Ok w'" and "i < length (goroutines w)"
    and "snd (goroutines w ! i) = AtSelect" and "stop_inv w"
  shows "stop_inv w'"
proof (cases b)
  case CtxDone
  with assms(1) have "exit_goroutine i w = Ok w'"
    by (simp add: worker_select_def split: if_splits)
  then show ?thesis using assms(2-4) by (auto intro: stop_inv_exit)
next
  case Comm
  show ?thesis
  proof (cases "taskQueue w")
    case Nil
    with Comm assms(1) have "exit_goroutine i w = Ok w'"
      by (simp add: worker_select_def split: if_splits)
    then show ?thesis using assms(2-4) by (auto intro: stop_inv_exit)
  next
    case (Cons t q)
    with Comm assms(1) have w': "w' = set_place i (Holding t) (w\<lparr>taskQueue := q\<rparr>)"
      by (simp add: worker_select_def)
    have "stop_inv (w\<lparr>taskQueue := q\<rparr>)"
      using assms(4) by (rule stop_inv_fields) simp_all
    then show ?thesis
      unfolding w' using assms(2,3) by (intro stop_inv_set_place) simp_all
  qed
qed

lemma stop_inv_ticker_select:
  assumes "ticker_select i b w = Ok w'" and "i < length (goroutines w)"
    and "snd (goroutines w ! i) = AtSelect" and "stop_inv w"
  shows "stop_inv w'"
proof (cases b)
  case CtxDone
  with assms(1) have "exit_goroutine i w = Ok w'"
    by (simp add: ticker_select_def split: if_splits)
  then show ?thesis using assms(2-4) by (auto intro: stop_inv_exit)
next
  case Comm
  with assms show ?thesis by (simp add: ticker_select_def)
qed

lemma stop_inv_goroutine_select:
  assumes "goroutine_select i b w = Ok w'" and "stop_inv w"
  shows "stop_inv w'"
proof -
  from assms(1) have i: "i < length (goroutines w)"
    by (simp add: goroutine_select_def split: if_splits)
  obtain c p where g: "goroutines w ! i = (c, p)"
    by (cases "goroutines w ! i")
  from assms(1) i g have p: "p = AtSelect"
    by (cases p; cases c) (simp_all add: goroutine_select_def)
  from assms(1) i g p have "worker_select i b w = Ok w' \<or> ticker_select i b w = Ok w'"
    by (cases c) (simp_all add: goroutine_select_def)
  then show ?thesis
    using i g p assms(2) by (auto intro: stop_inv_worker_select stop_inv_ticker_select)
qed

lemma stop_inv_worker_body:
  assumes "i < length (goroutines w)" and "snd (goroutines w ! i) = Holding t" and "stop_inv w"
  shows "stop_inv (worker_body i t w)"
proof -
  have nr: "stopAt w \<noteq> Returned"
    using assms(3,1) by (rule not_Returned_if_live) (simp add: assms(2))
  have a: "stop_inv (w\<lparr>results := results w @ [Process t]\<rparr>)"
    using assms(3) by (rule stop_inv_fields) simp_all
  have b: "stop_inv (set_place i AtSelect (w\<lparr>results := results w @ [Process t]\<rparr>))"
    using a assms(1,2) by (intro stop_inv_set_place) simp_all
  show ?thesis
    unfolding worker_body_def Let_def
    using b nr by (intro stop_inv_spawn) (simp_all add: set_place_def)
qed

lemma stop_inv_goroutine_body:
  assumes "goroutine_body i w = Ok w'" and "stop_inv w"
  shows "stop_inv w'"
proof -
  from assms(1) have i: "i < length (goroutines w)"
    by (simp add: goroutine_body_def split: if_splits)
  obtain c p where g: "goroutines w ! i = (c, p)"
    by (cases "goroutines w ! i")
  from assms(1) i g obtain t where p: "p = Holding t" and w': "w' = worker_body i t w"
    by (cases p; cases c) (simp_all add: goroutine_body_def)
  show ?thesis
    unfolding w' using i g p assms(2) by (intro stop_inv_worker_body) simp_all
qed

lemma stop_inv_ProcessTasks_select:
  assumes "ProcessTasks_select b w = Ok w'" and "stop_inv w"
  shows "stop_inv w'"
  using assms
  by (auto simp: ProcessTasks_select_def stop_inv_def split: list.splits if_splits branch.splits)

lemma stop_inv_handoff:
  assumes "handoff i w = Ok w'" and "stop_inv w"
  shows "stop_inv w'"
proof -
  from assms(1) obtain t ts where pend: "pending w = t # ts"
    by (cases "pending w") (simp_all add: handoff_def)
  from assms(1) pend have i: "i < length (goroutines w)"
    by (simp add: handoff_def split: if_splits)
  obtain c p where g: "goroutines w ! i = (c, p)"
    by (cases "goroutines w ! i")
  from assms(1) pend i g have p: "p = AtSelect"
    and w': "w' = set_place i (Holding t) (w\<lparr>pending := ts\<rparr>)"
    by (cases p; cases c; simp add: handoff_def split: if_splits)+
  have "stop_inv (w\<lparr>pending := ts\<rparr>)"
    using assms(2) by (rule stop_inv_fields) simp_all
  then show ?thesis
    unfolding w' using i g p by (intro stop_inv_set_place) simp_all
qed

lemma stop_inv_Stop_cancel:
  assumes "Stop_cancel w = Ok w'" and "stop_inv w"
  shows "stop_inv w'"
  using assms by (auto simp: Stop_cancel_def cancel_def stop_inv_def split: if_splits)

lemma stop_inv_Stop_close:
  assumes "Stop_close w = Ok w'" and "stop_inv w"
  shows "stop_inv w'"
  using assms
  by (auto simp: Stop_close_def close_taskQueue_def stop_inv_def split: if_splits)

lemma stop_inv_Stop_wait:
  assumes "Stop_wait w = Ok w'" and "stop_inv w"
  shows "stop_inv w'"
  using assms by (auto simp: Stop_wait_def wg_Wait_def stop_inv_def split: if_splits)

lemma stop_inv_step:
  assumes "step e w = Ok w'" and "stop_inv w"
  shows "stop_inv w'"
  using assms
  by (cases e)
    (auto intro: stop_inv_goroutine_select stop_inv_goroutine_body stop_inv_ProcessTasks_select
      stop_inv_handoff stop_inv_Stop_cancel stop_inv_Stop_close stop_inv_Stop_wait)

lemma stop_inv_run:
  assumes "run sched w = Ok w'" and "stop_inv w"
  shows "stop_inv w'"
  using assms
proof (induction sched arbitrary: w)
  case Nil
  then show ?case by simp
next
  case (Cons e es)
  then show ?case
    by (cases "step e w") (auto dest: stop_inv_step)
qed

subsection \<open>Every task is in exactly one place\<close>

lemma tasks_inv_fields:
  assumes "tasks_inv T w" and "results w' = results w" and "taskQueue w' = taskQueue w"
    and "goroutines w' = goroutines w" and "pending w' = pending w"
  shows "tasks_inv T w'"
  using assms by (simp add: tasks_inv_def)

lemma tasks_inv_exit:
  assumes "exit_goroutine i w = Ok w'" and "i < length (goroutines w)"
    and "snd (goroutines w ! i) = AtSelect" and "tasks_inv T w"
  shows "tasks_inv T w'"
  using assms
  by (auto simp: exit_goroutine_def wg_Done_def set_place_def tasks_inv_def held_update_Exited
      split: if_splits)

lemma tasks_inv_worker_select:
  assumes "worker_select i b w = Ok w'" and "i < length (goroutines w)"
    and "snd (goroutines w ! i) = AtSelect" and "tasks_inv T w"
  shows "tasks_inv T w'"
proof (cases b)
  case CtxDone
  with assms(1) have "exit_goroutine i w = Ok w'"
    by (simp add: worker_select_def split: if_splits)
  then show ?thesis using assms(2-4) by (rule tasks_inv_exit)
next
  case Comm
  show ?thesis
  proof (cases "taskQueue w")
    case Nil
    with Comm assms(1) have "exit_goroutine i w = Ok w'"
      by (simp add: worker_select_def split: if_splits)
    then show ?thesis using assms(2-4) by (rule tasks_inv_exit)
  next
    case (Cons t q)
    with Comm assms(1) have w': "w' = set_place i (Holding t) (w\<lparr>taskQueue := q\<rparr>)"
      by (simp add: worker_select_def)
    have "mset (held ((goroutines w)[i := (fst (goroutines w ! i), Holding t)]))
          = add_mset t (mset (held (goroutines w)))"
      using assms(2,3) by (rule held_update_Holding)
    then show ?thesis
      using assms(4) Cons by (simp add: w' set_place_def tasks_inv_def)
  qed
qed

lemma tasks_inv_ticker_select:
  assumes "ticker_select i b w = Ok w'" and "i < length (goroutines w)"
    and "snd (goroutines w ! i) = AtSelect" and "tasks_inv T w"
  shows "tasks_inv T w'"
proof (cases b)
  case CtxDone
  with assms(1) have "exit_goroutine i w = Ok w'"
    by (simp add: ticker_select_def split: if_splits)
  then show ?thesis using assms(2-4) by (rule tasks_inv_exit)
next
  case Comm
  with assms show ?thesis by (simp add: ticker_select_def)
qed

lemma goroutine_select_cases:
  assumes "goroutine_select i b w = Ok w'"
  obtains "i < length (goroutines w)" and "snd (goroutines w ! i) = AtSelect"
    and "worker_select i b w = Ok w' \<or> ticker_select i b w = Ok w'"
proof -
  from assms have i: "i < length (goroutines w)"
    by (simp add: goroutine_select_def split: if_splits)
  obtain c p where g: "goroutines w ! i = (c, p)"
    by (cases "goroutines w ! i")
  from assms i g have p: "p = AtSelect"
    by (cases p; cases c) (simp_all add: goroutine_select_def)
  from assms i g p have "worker_select i b w = Ok w' \<or> ticker_select i b w = Ok w'"
    by (cases c) (simp_all add: goroutine_select_def)
  with i g p that show ?thesis by simp
qed

lemma goroutine_body_cases:
  assumes "goroutine_body i w = Ok w'"
  obtains t where "i < length (goroutines w)" and "snd (goroutines w ! i) = Holding t"
    and "w' = worker_body i t w"
proof -
  from assms have i: "i < length (goroutines w)"
    by (simp add: goroutine_body_def split: if_splits)
  obtain c p where g: "goroutines w ! i = (c, p)"
    by (cases "goroutines w ! i")
  from assms i g obtain t where "p = Holding t" and "w' = worker_body i t w"
    by (cases p; cases c) (simp_all add: goroutine_body_def)
  with i g that show ?thesis by simp
qed

lemma handoff_cases:
  assumes "handoff i w = Ok w'"
  obtains t ts where "pending w = t # ts" and "i < length (goroutines w)"
    and "snd (goroutines w ! i) = AtSelect"
    and "w' = set_place i (Holding t) (w\<lparr>pending := ts\<rparr>)"
proof -
  from assms obtain t ts where pend: "pending w = t # ts"
    by (cases "pending w") (simp_all add: handoff_def)
  from assms pend have i: "i < length (goroutines w)"
    by (simp add: handoff_def split: if_splits)
  obtain c p where g: "goroutines w ! i = (c, p)"
    by (cases "goroutines w ! i")
  from assms pend i g have "p = AtSelect"
    and "w' = set_place i (Holding t) (w\<lparr>pending := ts\<rparr>)"
    by (cases p; cases c; simp add: handoff_def split: if_splits)+
  with pend i g that show ?thesis by simp
qed

lemma tasks_inv_goroutine_select:
  assumes "goroutine_select i b w = Ok w'" and "tasks_inv T w"
  shows "tasks_inv T w'"
  using assms(1)
proof (cases rule: goroutine_select_cases)
  case 1
  then show ?thesis
    using assms(2) by (auto intro: tasks_inv_worker_select tasks_inv_ticker_select)
qed

lemma tasks_inv_worker_body:
  assumes "i < length (goroutines w)" and "snd (goroutines w ! i) = Holding t"
    and "tasks_inv T w"
  shows "tasks_inv T (worker_body i t w)"
proof -
  have "add_mset t (mset (held ((goroutines w)[i := (fst (goroutines w ! i), AtSelect)])))
        = mset (held (goroutines w))"
    using assms(1,2) by (rule held_update_AtSelect)
  then have "mset (map Process (held (goroutines w)))
        = add_mset (Process t)
            (mset (map Process (held ((goroutines w)[i := (fst (goroutines w ! i), AtSelect)]))))"
    by (metis image_mset_add_mset mset_map)
  then show ?thesis
    using assms(3)
    by (simp add: worker_body_def spawn_def set_place_def tasks_inv_def held_append)
qed

lemma tasks_inv_goroutine_body:
  assumes "goroutine_body i w = Ok w'" and "tasks_inv T w"
  shows "tasks_inv T w'"
  using assms(1)
proof (cases rule: goroutine_body_cases)
  case (1 t)
  then show ?thesis
    using assms(2) by (simp add: tasks_inv_worker_body)
qed

lemma tasks_inv_ProcessTasks_select:
  assumes "ProcessTasks_select b w = Ok w'" and "tasks_inv T w"
  shows "tasks_inv T w'"
  using assms
  by (auto simp: ProcessTasks_select_def tasks_inv_def split: list.splits if_splits branch.splits)

lemma tasks_inv_handoff:
  assumes "handoff i w = Ok w'" and "tasks_inv T w"
  shows "tasks_inv T w'"
  using assms(1)
proof (cases rule: handoff_cases)
  case (1 t ts)
  have "mset (held ((goroutines w)[i := (fst (goroutines w ! i), Holding t)]))
        = add_mset t (mset (held (goroutines w)))"
    using 1(2,3) by (rule held_update_Holding)
  then show ?thesis
    using assms(2) 1(1) by (simp add: 1(4) set_place_def tasks_inv_def)
qed

lemma tasks_inv_Stop:
  assumes "Stop_cancel w = Ok w' \<or> Stop_close w = Ok w' \<or> Stop_wait w = Ok w'"
    and "tasks_inv T w"
  shows "tasks_inv T w'"
  using assms
  by (auto simp: Stop_cancel_def Stop_close_def Stop_wait_def cancel_def close_taskQueue_def
      wg_Wait_def tasks_inv_def split: if_splits)

lemma tasks_inv_step:
  assumes "step e w = Ok w'" and "tasks_inv T w"
  shows "tasks_inv T w'"
  using assms
  by (cases e)
    (auto intro: tasks_inv_goroutine_select tasks_inv_goroutine_body
      tasks_inv_ProcessTasks_select tasks_inv_handoff tasks_inv_Stop)

lemma tasks_inv_run:
  assumes "run sched w = Ok w'" and "tasks_inv T w"
  shows "tasks_inv T w'"
  using assms
proof (induction sched arbitrary: w)
  case Nil
  then show ?case by simp
next
  case (Cons e es)
  then show ?case
    by (cases "step e w") (auto dest: tasks_inv_step)
qed

subsection \<open>The goroutine table\<close>

lemma table_inv_fields:
  assumes "table_inv k w" and "results w' = results w"
    and "map fst (goroutines w') = map fst (goroutines w)"
  shows "table_inv k w'"
  using assms by (simp add: table_inv_def)

lemma table_inv_set_place:
  assumes "i < length (goroutines w)" and "table_inv k w"
  shows "table_inv k (set_place i p w)"
  using assms(2)
  by (rule table_inv_fields) (simp_all add: set_place_def map_fst_update assms(1))

lemma table_inv_exit:
  assumes "exit_goroutine i w = Ok w'" and "i < length (goroutines w)" and "table_inv k w"
  shows "table_inv k w'"
proof -
  from assms(1) have "w' = (set_place i Exited w)\<lparr>wg := wg (set_place i Exited w) - 1\<rparr>"
    by (simp add: exit_goroutine_def wg_Done_def split: if_splits)
  moreover have "table_inv k (set_place i Exited w)"
    using assms(2,3) by (rule table_inv_set_place)
  ultimately show ?thesis
    by (simp add: table_inv_def)
qed

lemma table_inv_goroutine_select:
  assumes "goroutine_select i b w = Ok w'" and "table_inv k w"
  shows "table_inv k w'"
  using assms(1)
proof (cases rule: goroutine_select_cases)
  case 1
  from 1(3) consider "exit_goroutine i w = Ok w'" | "w' = w"
    | t q where "w' = set_place i (Holding t) (w\<lparr>taskQueue := q\<rparr>)"
    by (auto simp: worker_select_def ticker_select_def
        split: branch.splits if_splits list.splits)
  then show ?thesis
  proof cases
    case 1
    then show ?thesis using \<open>i < length (goroutines w)\<close> assms(2) by (rule table_inv_exit)
  next
    case 2
    then show ?thesis using assms(2) by simp
  next
    case 3
    have "table_inv k (w\<lparr>taskQueue := q\<rparr>)"
      using assms(2) by (rule table_inv_fields) simp_all
    then show ?thesis
      unfolding 3 using \<open>i < length (goroutines w)\<close> by (intro table_inv_set_place) simp_all
  qed
qed

lemma table_inv_worker_body:
  assumes "i < length (goroutines w)" and "table_inv k w"
  shows "table_inv k (worker_body i t w)"
  using assms
  by (simp add: worker_body_def spawn_def set_place_def table_inv_def map_fst_update
      TaskID_Process)

lemma table_inv_goroutine_body:
  assumes "goroutine_body i w = Ok w'" and "table_inv k w"
  shows "table_inv k w'"
  using assms(1)
proof (cases rule: goroutine_body_cases)
  case (1 t)
  then show ?thesis
    using assms(2) by (simp add: table_inv_worker_body)
qed

lemma table_inv_ProcessTasks_select:
  assumes "ProcessTasks_select b w = Ok w'" and "table_inv k w"
  shows "table_inv k w'"
  using assms
  by (auto simp: ProcessTasks_select_def table_inv_def split: list.splits if_splits branch.splits)

lemma table_inv_handoff:
  assumes "handoff i w = Ok w'" and "table_inv k w"
  shows "table_inv k w'"
  using assms(1)
proof (cases rule: handoff_cases)
  case (1 t ts)
  have "table_inv k (w\<lparr>pending := ts\<rparr>)"
    using assms(2) by (rule table_inv_fields) simp_all
  then show ?thesis
    unfolding 1(4) using 1(2) by (intro table_inv_set_place) simp_all
qed

lemma table_inv_Stop:
  assumes "Stop_cancel w = Ok w' \<or> Stop_close w = Ok w' \<or> Stop_wait w = Ok w'"
    and "table_inv k w"
  shows "table_inv k w'"
  using assms
  by (auto simp: Stop_cancel_def Stop_close_def Stop_wait_def cancel_def close_taskQueue_def
      wg_Wait_def table_inv_def split: if_splits)

lemma table_inv_step:
  assumes "step e w = Ok w'" and "table_inv k w"
  shows "table_inv k w'"
  using assms
  by (cases e)
    (auto intro: table_inv_goroutine_select table_inv_goroutine_body
      table_inv_ProcessTasks_select table_inv_handoff table_inv_Stop)

lemma table_inv_run:
  assumes "run sched w = Ok w'" and "table_inv k w"
  shows "table_inv k w'"
  using assms
proof (induction sched arbitrary: w)
  case Nil
  then show ?case by simp
next
  case (Cons e es)
  then show ?case
    by (cases "step e w") (auto dest: table_inv_step)
qed

subsection \<open>Initial states\<close>

lemma spawn_workers_fields:
  "goroutines (spawn_workers ids w) = goroutines w @ map (\<lambda>i. (WorkerG i, AtSelect)) ids
   \<and> wg (spawn_workers ids w) = wg w + int (length ids)
   \<and> results (spawn_workers ids w) = results w
   \<and> taskQueue (spawn_workers ids w) = taskQueue w
   \<and> taskQueueClosed (spawn_workers ids w) = taskQueueClosed w
   \<and> ctxDone (spawn_workers ids w) = ctxDone w
   \<and> stopAt (spawn_workers ids w) = stopAt w
   \<and> pending (spawn_workers ids w) = pending w"
  by (induction ids arbitrary: w) (simp_all add: spawn_def)

lemma live_AtSelect: "live (map (\<lambda>i. (f i, AtSelect)) ids) = length ids"
  by (induction ids) simp_all

lemma held_AtSelect: "held (map (\<lambda>i. (f i, AtSelect)) ids) = []"
  by (induction ids) simp_all

lemma Start_fields:
  "goroutines (Start n (new_pool c))
     = map (\<lambda>i. (WorkerG i, AtSelect)) [0..<nat (sint n)]
       @ [(MonitorG, AtSelect), (MetricsG, AtSelect)]"
  "wg (Start n (new_pool c)) = int (nat (sint n)) + 2"
  "results (Start n (new_pool c)) = []"
  "taskQueue (Start n (new_pool c)) = []"
  "taskQueueClosed (Start n (new_pool c)) = False"
  "ctxDone (Start n (new_pool c)) = False"
  "stopAt (Start n (new_pool c)) = NotInStop"
  by (simp_all add: Start_def spawn_def spawn_workers_fields new_pool_def)

lemma initial_invs:
  assumes "NewOptimizedWorker expectedTasks = Ok w0"
  shows "stop_inv (ProcessTasks_begin tasks (Start numWorkers w0))"
    and "tasks_inv tasks (ProcessTasks_begin tasks (Start numWorkers w0))"
    and "table_inv (nat (sint numWorkers)) (ProcessTasks_begin tasks (Start numWorkers w0))"
proof -
  from assms have w0: "w0 = new_pool (nat (sint expectedTasks))"
    by (simp add: NewOptimizedWorker_def split: if_splits)
  show "stop_inv (ProcessTasks_begin tasks (Start numWorkers w0))"
    by (simp add: w0 ProcessTasks_begin_def stop_inv_def Start_fields live_append live_AtSelect)
  show "tasks_inv tasks (ProcessTasks_begin tasks (Start numWorkers w0))"
    by (simp add: w0 ProcessTasks_begin_def tasks_inv_def Start_fields held_append held_AtSelect)
  show "table_inv (nat (sint numWorkers)) (ProcessTasks_begin tasks (Start numWorkers w0))"
    by (simp add: w0 ProcessTasks_begin_def table_inv_def Start_fields comp_def)
qed

text \<open>The definitions a concrete run unfolds.\<close>

lemmas run_defs =
  goroutine_select_def goroutine_body_def worker_select_def worker_body_def ticker_select_def
  exit_goroutine_def wg_Done_def set_place_def spawn_def ProcessTasks_select_def handoff_def
  Stop_cancel_def Stop_close_def Stop_wait_def cancel_def close_taskQueue_def wg_Wait_def
  ProcessTasks_begin_def Start_def new_pool_def

subsection \<open>Stop waits for every goroutine\<close>

lemma all_Exited_if_Returned:
  assumes "stop_inv w" and "stopAt w = Returned"
  shows "\<forall>g\<in>set (goroutines w). snd g = Exited"
  using assms by (simp add: stop_inv_def flip: live_0_iff)

text \<open>
  C1. Take any run of the pool after \<open>Start(numWorkers)\<close>, with any tasks given to
  \<open>ProcessTasks\<close> and any schedule. In every state in which \<open>Stop\<close> has returned,
  the goroutine table holds the workers, the monitor, the metrics sampler and one
  helper for each processed task, and every one of them has returned; the
  cancellation signal is raised, the queue is closed and the wait-group counter is
  zero. \<open>Stop\<close> itself is \<open>Stop_cancel\<close>, \<open>Stop_close\<close>, \<open>Stop_wait\<close> in this order,
  and \<open>Stop_wait\<close> cannot be taken while the counter is not zero.
\<close>

theorem Stop_returns_after_all_goroutines:
  assumes "NewOptimizedWorker expectedTasks = Ok w0"
    and "run sched (ProcessTasks_begin tasks (Start numWorkers w0)) = Ok w"
    and "stopAt w = Returned"
  shows "map fst (goroutines w)
           = map WorkerG [0..<nat (sint numWorkers)] @ [MonitorG, MetricsG]
             @ map (\<lambda>r. HelperG (TaskID r)) (results w)
         \<and> (\<forall>g\<in>set (goroutines w). snd g = Exited)
         \<and> ctxDone w \<and> taskQueueClosed w \<and> wg w = 0"
proof -
  have s: "stop_inv w"
    using assms(2) initial_invs(1) [OF assms(1)] by (rule stop_inv_run)
  have t: "table_inv (nat (sint numWorkers)) w"
    using assms(2) initial_invs(3) [OF assms(1)] by (rule table_inv_run)
  have "\<forall>g\<in>set (goroutines w). snd g = Exited"
    using s assms(3) by (rule all_Exited_if_Returned)
  moreover have "ctxDone w \<and> taskQueueClosed w \<and> wg w = 0"
    using s assms(3) by (simp add: stop_inv_def)
  ultimately show ?thesis
    using t by (simp add: table_inv_def)
qed

text \<open>
  A run with one worker and one task: the task is sent, received and processed, its
  helper takes a tick after cancellation, and then all four goroutines return before
  \<open>Stop\<close> does.
\<close>

theorem Stop_returns_after_all_goroutines_witness:
  "run [Send Comm, Select 0 Comm, Body 0, StopCancel, StopClose, Select 3 Comm,
        Select 0 CtxDone, Select 1 CtxDone, Select 2 CtxDone, Select 3 CtxDone, StopWait]
     (ProcessTasks_begin [\<lparr>ID = 7, Data = [1, 2], Operation = OperationSum\<rparr>]
        (Start 1 (new_pool 1)))
   = Ok \<lparr>taskQueue = [], taskQueueCap = 1, taskQueueClosed = True,
         results = [Process \<lparr>ID = 7, Data = [1, 2], Operation = OperationSum\<rparr>],
         wg = 0, ctxDone = True,
         goroutines = [(WorkerG 0, Exited), (MonitorG, Exited), (MetricsG, Exited),
                       (HelperG 7, Exited)],
         pending = [], aborted = False, stopAt = Returned\<rparr>
   \<and> map fst [(WorkerG 0, Exited), (MonitorG, Exited), (MetricsG, Exited), (HelperG 7, Exited)]
       = map WorkerG [0..<nat (sint (1 :: go_int))] @ [MonitorG, MetricsG]
         @ map (\<lambda>r. HelperG (TaskID r))
             [Process \<lparr>ID = 7, Data = [1, 2], Operation = OperationSum\<rparr>]"
proof -
  let ?t = "\<lparr>ID = 7, Data = [1, 2], Operation = OperationSum\<rparr>"
  let ?w = "\<lparr>taskQueue = [], taskQueueCap = 1, taskQueueClosed = True,
         results = [Process ?t],
         wg = 0, ctxDone = True,
         goroutines = [(WorkerG 0, Exited), (MonitorG, Exited), (MetricsG, Exited),
                       (HelperG 7, Exited)],
         pending = [], aborted = False, stopAt = Returned\<rparr>"
  have h1: "NewOptimizedWorker 1 = Ok (new_pool 1)"
    by (simp add: NewOptimizedWorker_def)
  have h2: "run [Send Comm, Select 0 Comm, Body 0, StopCancel, StopClose, Select 3 Comm,
        Select 0 CtxDone, Select 1 CtxDone, Select 2 CtxDone, Select 3 CtxDone, StopWait]
     (ProcessTasks_begin [?t] (Start 1 (new_pool 1))) = Ok ?w"
    by (simp add: run_defs)
  have h3: "stopAt ?w = Returned"
    by simp
  from Stop_returns_after_all_goroutines [OF h1 h2 h3] h2 show ?thesis
    by simp
qed

subsection \<open>Cancellation of the helper, monitor and sampler\<close>

























subsection \<open>Results after Stop\<close>

text \<open>
  The statement that after \<open>ProcessTasks(T)\<close> and \<open>Stop()\<close> the results are as many
  as the tasks fails. One worker, a queue of capacity one, one task: \<open>ProcessTasks\<close>
  sends the task and returns; \<open>Stop\<close> cancels and closes; the worker's \<open>select\<close> can
  take \<open><-w.ctx.Done()\<close> although the task is in the queue, and returns; the monitor
  and the sampler return; \<open>Stop\<close> returns. The task is still in the queue and
  \<open>GetResults\<close> is empty.
\<close>

theorem results_length_counterexample:
  "run [Send Comm]
     (ProcessTasks_begin [\<lparr>ID = 7, Data = [1, 2], Operation = OperationSum\<rparr>]
        (Start 1 (new_pool 1)))
   = Ok \<lparr>taskQueue = [\<lparr>ID = 7, Data = [1, 2], Operation = OperationSum\<rparr>],
         taskQueueCap = 1, taskQueueClosed = False, results = [], wg = 3, ctxDone = False,
         goroutines = [(WorkerG 0, AtSelect), (MonitorG, AtSelect), (MetricsG, AtSelect)],
         pending = [], aborted = False, stopAt = NotInStop\<rparr>
   \<and> ProcessTasks_returned
       \<lparr>taskQueue = [\<lparr>ID = 7, Data = [1, 2], Operation = OperationSum\<rparr>],
         taskQueueCap = 1, taskQueueClosed = False, results = [], wg = 3, ctxDone = False,
         goroutines = [(WorkerG 0, AtSelect), (MonitorG, AtSelect), (MetricsG, AtSelect)],
         pending = [], aborted = False, stopAt = NotInStop\<rparr>
   \<and> run [StopCancel, StopClose, Select 0 CtxDone, Select 1 CtxDone, Select 2 CtxDone, StopWait]
       \<lparr>taskQueue = [\<lparr>ID = 7, Data = [1, 2], Operation = OperationSum\<rparr>],
         taskQueueCap = 1, taskQueueClosed = False, results = [], wg = 3, ctxDone = False,
         goroutines = [(WorkerG 0, AtSelect), (MonitorG, AtSelect), (MetricsG, AtSelect)],
         pending = [], aborted = False, stopAt = NotInStop\<rparr>
     = Ok \<lparr>taskQueue = [\<lparr>ID = 7, Data = [1, 2], Operation = OperationSum\<rparr>],
           taskQueueCap = 1, taskQueueClosed = True, results = [], wg = 0, ctxDone = True,
           goroutines = [(WorkerG 0, Exited), (MonitorG, Exited), (MetricsG, Exited)],
           pending = [], aborted = False, stopAt = Returned\<rparr>
   \<and> length (GetResults
         \<lparr>taskQueue = [\<lparr>ID = 7, Data = [1, 2], Operation = OperationSum\<rparr>],
           taskQueueCap = 1, taskQueueClosed = True, results = [], wg = 0, ctxDone = True,
           goroutines = [(WorkerG 0, Exited), (MonitorG, Exited), (MetricsG, Exited)],
           pending = [], aborted = False, stopAt = Returned\<rparr>)
       \<noteq> length [\<lparr>ID = 7, Data = [1, 2], Operation = OperationSum\<rparr>]"
  by (simp add: run_defs ProcessTasks_returned_def GetResults_def)

text \<open>
  C3, as the code has it. Once \<open>Stop\<close> has returned, the results of \<open>GetResults\<close>
  together with the tasks left in the queue and the tasks \<open>ProcessTasks\<close> did not send
  are exactly the tasks given to \<open>ProcessTasks\<close>, each counted once: no task is
  processed twice, and the tasks missing from the results are those that were not
  received before the workers saw the cancellation. So the number of results is the
  number of tasks less those left in the queue and those not sent, and at most the
  number of tasks.
\<close>

theorem results_after_Stop:
  assumes "NewOptimizedWorker expectedTasks = Ok w0"
    and "run sched (ProcessTasks_begin tasks (Start numWorkers w0)) = Ok w"
    and "stopAt w = Returned"
  shows "mset (GetResults w) + mset (map Process (taskQueue w)) + mset (map Process (pending w))
           = mset (map Process tasks)
         \<and> length (GetResults w) + length (taskQueue w) + length (pending w) = length tasks
         \<and> length (GetResults w) \<le> length tasks"
proof -
  have s: "stop_inv w"
    using assms(2) initial_invs(1) [OF assms(1)] by (rule stop_inv_run)
  have t: "tasks_inv tasks w"
    using assms(2) initial_invs(2) [OF assms(1)] by (rule tasks_inv_run)
  have "held (goroutines w) = []"
    using s assms(3) by (intro held_Nil all_Exited_if_Returned)
  with t have m: "mset (GetResults w) + mset (map Process (taskQueue w))
      + mset (map Process (pending w)) = mset (map Process tasks)"
    by (simp add: tasks_inv_def GetResults_def)
  then have "size (mset (GetResults w) + mset (map Process (taskQueue w))
      + mset (map Process (pending w))) = size (mset (map Process tasks))"
    by simp
  then have "length (GetResults w) + length (taskQueue w) + length (pending w) = length tasks"
    by simp
  with m show ?thesis
    by simp
qed

text \<open>
  A run with three tasks: the first is processed, the second is left in the queue and
  the third is not sent because \<open>ProcessTasks\<close> sees the cancellation.
\<close>

theorem results_after_Stop_witness:
  "length (GetResults
     \<lparr>taskQueue = [\<lparr>ID = 8, Data = [], Operation = OperationFilter\<rparr>],
      taskQueueCap = 2, taskQueueClosed = True,
      results = [Process \<lparr>ID = 7, Data = [1, 2], Operation = OperationSum\<rparr>],
      wg = 0, ctxDone = True,
      goroutines = [(WorkerG 0, Exited), (MonitorG, Exited), (MetricsG, Exited),
                    (HelperG 7, Exited)],
      pending = [\<lparr>ID = 9, Data = [3], Operation = OperationSquare\<rparr>],
      aborted = True, stopAt = Returned\<rparr>) + 1 + 1
   = length [\<lparr>ID = 7, Data = [1, 2], Operation = OperationSum\<rparr>,
             \<lparr>ID = 8, Data = [], Operation = OperationFilter\<rparr>,
             \<lparr>ID = 9, Data = [3], Operation = OperationSquare\<rparr>]"
proof -
  let ?t7 = "\<lparr>ID = 7, Data = [1, 2], Operation = OperationSum\<rparr>"
  let ?t8 = "\<lparr>ID = 8, Data = [], Operation = OperationFilter\<rparr>"
  let ?t9 = "\<lparr>ID = 9, Data = [3], Operation = OperationSquare\<rparr>"
  let ?w = "\<lparr>taskQueue = [?t8], taskQueueCap = 2, taskQueueClosed = True,
      results = [Process ?t7], wg = 0, ctxDone = True,
      goroutines = [(WorkerG 0, Exited), (MonitorG, Exited), (MetricsG, Exited),
                    (HelperG 7, Exited)],
      pending = [?t9], aborted = True, stopAt = Returned\<rparr>"
  have h1: "NewOptimizedWorker 2 = Ok (new_pool 2)"
    by (simp add: NewOptimizedWorker_def)
  have h2: "run [Send Comm, Select 0 Comm, Send Comm, Body 0, StopCancel, Send CtxDone,
        StopClose, Select 0 CtxDone, Select 1 CtxDone, Select 2 CtxDone, Select 3 CtxDone,
        StopWait]
     (ProcessTasks_begin [?t7, ?t8, ?t9] (Start 1 (new_pool 2))) = Ok ?w"
    by (simp add: run_defs)
  have h3: "stopAt ?w = Returned"
    by simp
  from results_after_Stop [OF h1 h2 h3] show ?thesis
    by simp
qed

subsection \<open>Calling Stop twice\<close>

text \<open>
  The statement that a second \<open>Stop()\<close> after the first has returned is safe fails:
  after a complete \<open>Stop\<close>, the second call passes \<open>w.cancel()\<close> and panics in
  \<open>close(w.taskQueue)\<close>, the queue being closed already.
\<close>

theorem second_Stop_counterexample:
  "run [StopCancel, StopClose, Select 0 CtxDone, Select 1 CtxDone, Select 2 CtxDone, StopWait]
     (Start 1 (new_pool 1))
   = Ok \<lparr>taskQueue = [], taskQueueCap = 1, taskQueueClosed = True, results = [], wg = 0,
         ctxDone = True,
         goroutines = [(WorkerG 0, Exited), (MonitorG, Exited), (MetricsG, Exited)],
         pending = [], aborted = False, stopAt = Returned\<rparr>
   \<and> run [StopCancel, StopClose]
       \<lparr>taskQueue = [], taskQueueCap = 1, taskQueueClosed = True, results = [], wg = 0,
         ctxDone = True,
         goroutines = [(WorkerG 0, Exited), (MonitorG, Exited), (MetricsG, Exited)],
         pending = [], aborted = False, stopAt = Returned\<rparr>
     = Panic CloseOfClosedChannel"
  by (simp add: run_defs)

text \<open>
  C4, as the code has it. \<open>Stop\<close> is to be called once. In any state of a run in which
  \<open>Stop\<close> has not been called, its first two statements raise the signal and close
  the queue without a panic. In any state in which \<open>Stop\<close> has returned, raising the
  signal again changes nothing (it is broadcast once and stays raised), but a second
  call of \<open>Stop\<close> panics with "close of closed channel".
\<close>

theorem Stop_once:
  assumes "NewOptimizedWorker expectedTasks = Ok w0"
    and "run sched (ProcessTasks_begin tasks (Start numWorkers w0)) = Ok w"
  shows "(stopAt w = NotInStop \<longrightarrow>
            run [StopCancel, StopClose] w
              = Ok (w\<lparr>taskQueueClosed := True, ctxDone := True, stopAt := AfterClose\<rparr>))
         \<and> (stopAt w = Returned \<longrightarrow>
              cancel w = w \<and> run [StopCancel, StopClose] w = Panic CloseOfClosedChannel)"
proof -
  have s: "stop_inv w"
    using assms(2) initial_invs(1) [OF assms(1)] by (rule stop_inv_run)
  show ?thesis
    using s
    by (simp add: stop_inv_def Stop_cancel_def Stop_close_def cancel_def close_taskQueue_def)
qed

text \<open>Both cases on the pool with one worker: before any \<open>Stop\<close>, and after a full one.\<close>

theorem Stop_once_witness:
  "run [StopCancel, StopClose]
     (ProcessTasks_begin [] (Start 1 (new_pool 1)))
   = Ok ((ProcessTasks_begin [] (Start 1 (new_pool 1)))
          \<lparr>taskQueueClosed := True, ctxDone := True, stopAt := AfterClose\<rparr>)
   \<and> run [StopCancel, StopClose]
       \<lparr>taskQueue = [], taskQueueCap = 1, taskQueueClosed = True, results = [], wg = 0,
         ctxDone = True,
         goroutines = [(WorkerG 0, Exited), (MonitorG, Exited), (MetricsG, Exited)],
         pending = [], aborted = False, stopAt = Returned\<rparr>
     = Panic CloseOfClosedChannel"
proof -
  let ?w = "\<lparr>taskQueue = [], taskQueueCap = 1, taskQueueClosed = True, results = [], wg = 0,
         ctxDone = True,
         goroutines = [(WorkerG 0, Exited), (MonitorG, Exited), (MetricsG, Exited)],
         pending = [], aborted = False, stopAt = Returned\<rparr>"
  have h1: "NewOptimizedWorker 1 = Ok (new_pool 1)"
    by (simp add: NewOptimizedWorker_def)
  have h2: "run [] (ProcessTasks_begin [] (Start 1 (new_pool 1)))
      = Ok (ProcessTasks_begin [] (Start 1 (new_pool 1)))"
    by simp
  have h3: "stopAt (ProcessTasks_begin [] (Start 1 (new_pool 1))) = NotInStop"
    by (simp add: run_defs)
  have h4: "run [StopCancel, StopClose, Select 0 CtxDone, Select 1 CtxDone, Select 2 CtxDone,
        StopWait] (ProcessTasks_begin [] (Start 1 (new_pool 1))) = Ok ?w"
    by (simp add: run_defs)
  have h5: "stopAt ?w = Returned"
    by simp
  from Stop_once [OF h1 h2] h3 Stop_once [OF h1 h4] h5 show ?thesis
    by simp
qed

subsection \<open>ProcessTasks against a stopped pool\<close>

text \<open>
  C5. \<open>ProcessTasks\<close> is meant to leave cleanly once the cancellation signal is
  raised. On the code this fails when the queue is closed as well: with a task still
  to send after \<open>Stop\<close> has cancelled and closed, both cases of the \<open>select\<close> can
  proceed. The case \<open><-w.ctx.Done()\<close> returns cleanly; the case \<open>w.taskQueue <- t\<close>
  is a send on a closed channel and panics. Go chooses between them at random.
\<close>

theorem ProcessTasks_after_Stop_panics:
  "run [StopCancel, StopClose]
     (ProcessTasks_begin [\<lparr>ID = 7, Data = [1, 2], Operation = OperationSum\<rparr>]
        (Start 1 (new_pool 1)))
   = Ok \<lparr>taskQueue = [], taskQueueCap = 1, taskQueueClosed = True, results = [], wg = 3,
         ctxDone = True,
         goroutines = [(WorkerG 0, AtSelect), (MonitorG, AtSelect), (MetricsG, AtSelect)],
         pending = [\<lparr>ID = 7, Data = [1, 2], Operation = OperationSum\<rparr>],
         aborted = False, stopAt = AfterClose\<rparr>
   \<and> ProcessTasks_select CtxDone
       \<lparr>taskQueue = [], taskQueueCap = 1, taskQueueClosed = True, results = [], wg = 3,
         ctxDone = True,
         goroutines = [(WorkerG 0, AtSelect), (MonitorG, AtSelect), (MetricsG, AtSelect)],
         pending = [\<lparr>ID = 7, Data = [1, 2], Operation = OperationSum\<rparr>],
         aborted = False, stopAt = AfterClose\<rparr>
     = Ok \<lparr>taskQueue = [], taskQueueCap = 1, taskQueueClosed = True, results = [], wg = 3,
         ctxDone = True,
         goroutines = [(WorkerG 0, AtSelect), (MonitorG, AtSelect), (MetricsG, AtSelect)],
         pending = [\<lparr>ID = 7, Data = [1, 2], Operation = OperationSum\<rparr>],
         aborted = True, stopAt = AfterClose\<rparr>
   \<and> ProcessTasks_select Comm
       \<lparr>taskQueue = [], taskQueueCap = 1, taskQueueClosed = True, results = [], wg = 3,
         ctxDone = True,
         goroutines = [(WorkerG 0, AtSelect), (MonitorG, AtSelect), (MetricsG, AtSelect)],
         pending = [\<lparr>ID = 7, Data = [1, 2], Operation = OperationSum\<rparr>],
         aborted = False, stopAt = AfterClose\<rparr>
     = Panic SendOnClosedChannel"
  by (simp add: run_defs)

end
